theory Spec2Isabelle
  imports Main
begin

section \<open>Lock: the single-slot wait/notify primitive\<close>

text \<open>
  The class \<^verbatim>\<open>Lock\<close> of \<^verbatim>\<open>worker_pool.ts\<close> has one field, \<^verbatim>\<open>resolve\<close>: the resolve
  function of the promise the latest caller of \<^verbatim>\<open>acquire\<close> awaits, or \<^verbatim>\<open>undefined\<close>.
  A resolve function is identified with the caller it resumes, a \<open>waiter\<close>.

  \<^item> \<^verbatim>\<open>acquire()\<close> runs the promise executor at once, which stores the new resolve
    function in the field; the caller is then suspended on that promise.
  \<^item> \<^verbatim>\<open>release()\<close> calls the stored function, when there is one, and clears the field.
    The model returns the waiter whose promise was resolved (\<open>None\<close> when nothing was
    stored) next to the new lock.
\<close>

type_synonym waiter = nat

record Lock =
  resolve :: "waiter option"

definition Lock_new :: Lock where
  "Lock_new = \<lparr>resolve = None\<rparr>"

definition acquire :: "waiter \<Rightarrow> Lock \<Rightarrow> Lock" where
  "acquire w l = l\<lparr>resolve := Some w\<rparr>"

definition release :: "Lock \<Rightarrow> waiter option \<times> Lock" where
  "release l =
     (case resolve l of
        Some w \<Rightarrow> (Some w, l\<lparr>resolve := None\<rparr>)
      | None \<Rightarrow> (None, l))"

text \<open>
  A history of calls on one lock. The second component of the state collects, in
  order, the waiters whose promise a \<^verbatim>\<open>release\<close> has resolved.
\<close>

datatype lock_op = Acquire waiter | Release

fun lock_step :: "lock_op \<Rightarrow> Lock \<times> waiter list \<Rightarrow> Lock \<times> waiter list" where
  "lock_step (Acquire w) (l, resumed) = (acquire w l, resumed)"
| "lock_step Release (l, resumed) =
     (case release l of
        (Some w, l') \<Rightarrow> (l', resumed @ [w])
      | (None, l') \<Rightarrow> (l', resumed))"

fun lock_run :: "lock_op list \<Rightarrow> Lock \<times> waiter list \<Rightarrow> Lock \<times> waiter list" where
  "lock_run [] st = st"
| "lock_run (x # xs) st = lock_run xs (lock_step x st)"


section \<open>AvailabilityQueue: which worker slots are idle\<close>

text \<open>
  \<^verbatim>\<open>availability\<close> is a JavaScript array of booleans, \<^verbatim>\<open>availabilityCount\<close> a number.
  Slot ids are array indices, natural numbers here: the only callers pass the loop
  index \<^verbatim>\<open>workerId\<close> of \<^verbatim>\<open>getInstance\<close> or an index found by the scan.

  Reading \<^verbatim>\<open>availability[id]\<close> past the end gives \<^verbatim>\<open>undefined\<close>, which is falsy
  (\<open>flag\<close>). Writing past the end extends the array; the holes in between read as
  \<^verbatim>\<open>undefined\<close> and are kept as \<open>False\<close> (\<open>store_flag\<close>).
\<close>

record AvailabilityQueue =
  availability :: "bool list"
  availabilityCount :: int
  aq_lock :: Lock

definition AvailabilityQueue_new :: "nat \<Rightarrow> AvailabilityQueue" where
  "AvailabilityQueue_new n =
     \<lparr>availability = replicate n False, availabilityCount = 0, aq_lock = Lock_new\<rparr>"

definition flag :: "bool list \<Rightarrow> nat \<Rightarrow> bool" where
  "flag xs i = (if i < length xs then xs ! i else False)"

definition store_flag :: "bool list \<Rightarrow> nat \<Rightarrow> bool \<Rightarrow> bool list" where
  "store_flag xs i b =
     (if i < length xs then xs[i := b]
      else xs @ replicate (i - length xs) False @ [b])"

definition freeze :: "nat \<Rightarrow> AvailabilityQueue \<Rightarrow> AvailabilityQueue" where
  "freeze i s =
     (if flag (availability s) i
      then s\<lparr>availability := store_flag (availability s) i False,
             availabilityCount := availabilityCount s - 1\<rparr>
      else s)"

text \<open>\<^verbatim>\<open>enable\<close> also returns the waiter its \<^verbatim>\<open>release\<close> resumed, if any.\<close>

definition enable :: "nat \<Rightarrow> AvailabilityQueue \<Rightarrow> waiter option \<times> AvailabilityQueue" where
  "enable i s =
     (if \<not> flag (availability s) i
      then (case release (aq_lock s) of
              (woken, l) \<Rightarrow>
                (woken, s\<lparr>availability := store_flag (availability s) i True,
                          availabilityCount := availabilityCount s + 1,
                          aq_lock := l\<rparr>))
      else (None, s))"

text \<open>
  The \<^verbatim>\<open>for\<close> loop of \<^verbatim>\<open>getAvailability\<close>, entered at index \<open>i\<close>: the first slot whose
  flag is set is frozen and returned; \<open>-1\<close> when the loop runs off the end.
\<close>

function scan :: "nat \<Rightarrow> AvailabilityQueue \<Rightarrow> int \<times> AvailabilityQueue" where
  "scan i s =
     (if i < length (availability s)
      then (if flag (availability s) i then (int i, freeze i s) else scan (Suc i) s)
      else (- 1, s))"
  by pat_completeness auto
termination
  by (relation "measure (\<lambda>(i, s). length (availability s) - i)") auto

declare scan.simps [simp del]

text \<open>
  One run of \<^verbatim>\<open>getAvailability\<close> by the caller \<open>w\<close>, from the test of its \<^verbatim>\<open>while\<close>
  loop to its next suspension or return. With no idle slot counted the caller
  registers on the lock and is suspended (\<open>Suspended\<close>); once resumed it tests the
  loop condition again, which is one more run of this function. Otherwise the scan
  runs and its result is returned.
\<close>

datatype aq_result = Suspended | Returned int

definition getAvailability :: "waiter \<Rightarrow> AvailabilityQueue \<Rightarrow> aq_result \<times> AvailabilityQueue" where
  "getAvailability w s =
     (if availabilityCount s \<le> 0
      then (Suspended, s\<lparr>aq_lock := acquire w (aq_lock s)\<rparr>)
      else (case scan 0 s of (r, s') \<Rightarrow> (Returned r, s')))"

text \<open>Histories of calls on one tracker, and what each \<^verbatim>\<open>getAvailability\<close> gave.\<close>

datatype aq_op = Freeze nat | Enable nat | GetAvailability waiter

fun aq_step :: "aq_op \<Rightarrow> AvailabilityQueue \<Rightarrow> AvailabilityQueue" where
  "aq_step (Freeze i) s = freeze i s"
| "aq_step (Enable i) s = snd (enable i s)"
| "aq_step (GetAvailability w) s = snd (getAvailability w s)"

fun aq_run :: "aq_op list \<Rightarrow> AvailabilityQueue \<Rightarrow> AvailabilityQueue" where
  "aq_run [] s = s"
| "aq_run (x # xs) s = aq_run xs (aq_step x s)"

fun aq_results :: "aq_op list \<Rightarrow> AvailabilityQueue \<Rightarrow> aq_result list" where
  "aq_results [] s = []"
| "aq_results (GetAvailability w # xs) s =
     fst (getAvailability w s) # aq_results xs (aq_step (GetAvailability w) s)"
| "aq_results (x # xs) s = aq_results xs (aq_step x s)"

definition idle_slots :: "AvailabilityQueue \<Rightarrow> nat" where
  "idle_slots s = length (filter (\<lambda>b. b) (availability s))"

definition aq_inv :: "AvailabilityQueue \<Rightarrow> bool" where
  "aq_inv s = (availabilityCount s = int (idle_slots s))"

section \<open>TaskQueue: the linked queue of pending tasks\<close>

text \<open>
  A queue element is a JavaScript object \<^verbatim>\<open>{prev, next, value}\<close>; \<^verbatim>\<open>head\<close>, \<^verbatim>\<open>tail\<close>,
  \<^verbatim>\<open>prev\<close> and \<^verbatim>\<open>next\<close> are references to such objects or \<^verbatim>\<open>undefined\<close>. The objects
  live in a store, \<open>nodes\<close>, a map from addresses to elements; a reference is an
  address, \<^verbatim>\<open>undefined\<close> is \<open>None\<close>, and \<^verbatim>\<open>===\<close> on references is equality of
  addresses. An object literal takes the next unused address, \<open>allocated\<close>. Objects
  are never removed from the store: what JavaScript no longer reaches, it may collect
  unseen. The elements of a queue are reachable from that queue only, so each queue
  carries its own store.
\<close>

type_synonym addr = nat

record 'a QueueElement =
  prev :: "addr option"
  "next" :: "addr option"
  "value" :: 'a

record 'a TaskQueue =
  head :: "addr option"
  tail :: "addr option"
  tq_lock :: Lock
  nodes :: "addr \<rightharpoonup> 'a QueueElement"
  allocated :: addr

definition TaskQueue_new :: "'a TaskQueue" where
  "TaskQueue_new =
     \<lparr>head = None, tail = None, tq_lock = Lock_new, nodes = Map.empty, allocated = 0\<rparr>"

text \<open>
  The assignments \<^verbatim>\<open>x.next = v\<close> and \<^verbatim>\<open>x.prev = v\<close> through a reference \<open>a\<close>. A
  JavaScript reference always has its object; for an address with no object the
  store is returned as it is.
\<close>

definition set_next :: "(addr \<rightharpoonup> 'a QueueElement) \<Rightarrow> addr \<Rightarrow> addr option \<Rightarrow> (addr \<rightharpoonup> 'a QueueElement)" where
  "set_next h a v = (case h a of Some e \<Rightarrow> h(a \<mapsto> e\<lparr>next := v\<rparr>) | None \<Rightarrow> h)"

definition set_prev :: "(addr \<rightharpoonup> 'a QueueElement) \<Rightarrow> addr \<Rightarrow> addr option \<Rightarrow> (addr \<rightharpoonup> 'a QueueElement)" where
  "set_prev h a v = (case h a of Some e \<Rightarrow> h(a \<mapsto> e\<lparr>prev := v\<rparr>) | None \<Rightarrow> h)"

text \<open>
  The \<^verbatim>\<open>if\<close>/\<^verbatim>\<open>else\<close> of \<^verbatim>\<open>push\<close>: the new element is linked behind the tail, or
  becomes head and tail of an empty queue.
\<close>

definition push_link :: "'a \<Rightarrow> 'a TaskQueue \<Rightarrow> 'a TaskQueue" where
  "push_link item q =
     (let a = allocated q in
      case tail q of
        Some t \<Rightarrow>
          q\<lparr>nodes := (set_next ((nodes q)(a \<mapsto> \<lparr>prev = Some t, next = None, value = item\<rparr>))
                          t (Some a)),
            tail := Some a,
            allocated := Suc a\<rparr>
      | None \<Rightarrow>
          q\<lparr>nodes := (nodes q)(a \<mapsto> \<lparr>prev = None, next = None, value = item\<rparr>),
            head := Some a,
            tail := Some a,
            allocated := Suc a\<rparr>)"

text \<open>
  \<^verbatim>\<open>push\<close>: link the element, then \<^verbatim>\<open>this.lock.release()\<close>, on every call. The
  waiter that the release resumed, if any, is returned next to the queue.
\<close>

definition push :: "'a \<Rightarrow> 'a TaskQueue \<Rightarrow> waiter option \<times> 'a TaskQueue" where
  "push item q =
     (let q1 = push_link item q in
      case release (tq_lock q1) of (woken, l) \<Rightarrow> (woken, q1\<lparr>tq_lock := l\<rparr>))"

text \<open>
  The generator \<^verbatim>\<open>pop\<close> in two pieces. \<open>pop_enter\<close> is the test at the top of its
  loop, made by the consumer \<open>c\<close>: on an empty queue the consumer calls
  \<^verbatim>\<open>acquire\<close> and is suspended (\<open>False\<close>), otherwise it goes on (\<open>True\<close>).
  \<open>dequeue\<close> is the rest of the loop body up to \<^verbatim>\<open>yield item\<close>: it is where the
  consumer goes on after the test, and where it resumes after \<^verbatim>\<open>acquire\<close>, with no
  second test. Reading \<^verbatim>\<open>this.head!.value\<close> with no head, and writing
  \<^verbatim>\<open>head!.prev\<close> with no successor, throw a \<^verbatim>\<open>TypeError\<close>.
\<close>

datatype error = TypeError

definition pop_enter :: "waiter \<Rightarrow> 'a TaskQueue \<Rightarrow> bool \<times> 'a TaskQueue" where
  "pop_enter c q =
     (if head q = None then (False, q\<lparr>tq_lock := acquire c (tq_lock q)\<rparr>) else (True, q))"

definition dequeue :: "'a TaskQueue \<Rightarrow> error + ('a \<times> 'a TaskQueue)" where
  "dequeue q =
     (case head q of
        None \<Rightarrow> Inl TypeError
      | Some a \<Rightarrow>
          (case nodes q a of
             None \<Rightarrow> Inl TypeError
           | Some e \<Rightarrow>
               if head q = tail q
               then Inr (value e, q\<lparr>head := None, tail := None\<rparr>)
               else (case next e of
                       None \<Rightarrow> Inl TypeError
                     | Some b \<Rightarrow>
                         Inr (value e, q\<lparr>nodes := set_prev (nodes q) b None,
                                          head := Some b\<rparr>))))"

text \<open>
  The tasks a queue holds, front first: the values met when following \<^verbatim>\<open>next\<close> from
  the head. No chain is longer than the number of objects allocated, which bounds
  the walk.
\<close>

fun walk :: "(addr \<rightharpoonup> 'a QueueElement) \<Rightarrow> nat \<Rightarrow> addr option \<Rightarrow> 'a list" where
  "walk h 0 p = []"
| "walk h (Suc n) p =
     (case p of
        None \<Rightarrow> []
      | Some a \<Rightarrow> (case h a of None \<Rightarrow> [] | Some e \<Rightarrow> value e # walk h n (next e)))"

definition tq_contents :: "'a TaskQueue \<Rightarrow> 'a list" where
  "tq_contents q = walk (nodes q) (allocated q) (head q)"

text \<open>
  The queue with its one consumer, the generator that \<^verbatim>\<open>start\<close> iterates. The consumer
  is before the test of its loop (\<open>AtLoopTop\<close>, where it also stands after a
  \<^verbatim>\<open>yield\<close>), suspended in \<^verbatim>\<open>acquire\<close> (\<open>Parked\<close>), or resumed by a \<^verbatim>\<open>release\<close> and
  about to go on behind the test (\<open>Resumed\<close>). \<open>Push\<close> is a call of \<^verbatim>\<open>push\<close>;
  \<open>Next\<close> lets the consumer run to its next suspension or \<^verbatim>\<open>yield\<close>, which a
  parked consumer cannot. \<open>yielded\<close> lists what the generator has yielded so far.
\<close>

datatype consumer = AtLoopTop | Parked | Resumed

record 'a tq_system =
  queue :: "'a TaskQueue"
  consumer :: consumer
  yielded :: "'a list"

definition tq_system_new :: "'a tq_system" where
  "tq_system_new = \<lparr>queue = TaskQueue_new, consumer = AtLoopTop, yielded = []\<rparr>"

datatype 'a tq_op = Push 'a | Next

definition take_item :: "'a tq_system \<Rightarrow> error + 'a tq_system" where
  "take_item s =
     (case dequeue (queue s) of
        Inl e \<Rightarrow> Inl e
      | Inr (item, q) \<Rightarrow> Inr (s\<lparr>queue := q, consumer := AtLoopTop, yielded := yielded s @ [item]\<rparr>))"

fun tq_step :: "'a tq_op \<Rightarrow> 'a tq_system \<Rightarrow> error + 'a tq_system" where
  "tq_step (Push item) s =
     (case push item (queue s) of
        (woken, q) \<Rightarrow>
          Inr (s\<lparr>queue := q,
                 consumer := (if woken = None then consumer s else Resumed)\<rparr>))"
| "tq_step Next s =
     (case consumer s of
        Parked \<Rightarrow> Inr s
      | Resumed \<Rightarrow> take_item s
      | AtLoopTop \<Rightarrow>
          (case pop_enter 0 (queue s) of
             (False, q) \<Rightarrow> Inr (s\<lparr>queue := q, consumer := Parked\<rparr>)
           | (True, q) \<Rightarrow> take_item (s\<lparr>queue := q\<rparr>)))"

fun tq_run :: "'a tq_op list \<Rightarrow> 'a tq_system \<Rightarrow> error + 'a tq_system" where
  "tq_run [] s = Inr s"
| "tq_run (x # xs) s = (case tq_step x s of Inl e \<Rightarrow> Inl e | Inr s' \<Rightarrow> tq_run xs s')"

fun pushed :: "'a tq_op list \<Rightarrow> 'a list" where
  "pushed [] = []"
| "pushed (Push item # xs) = item # pushed xs"
| "pushed (Next # xs) = pushed xs"

text \<open>
  The shape of a queue: the addresses \<open>as\<close> lead from the head along \<^verbatim>\<open>next\<close> to
  \<^verbatim>\<open>undefined\<close>, each with its object, no address twice, all of them allocated, and
  the tail is the last of them.
\<close>

fun chain :: "(addr \<rightharpoonup> 'a QueueElement) \<Rightarrow> addr option \<Rightarrow> addr list \<Rightarrow> bool" where
  "chain h p [] = (p = None)"
| "chain h p (a # as) =
     (p = Some a \<and> (case h a of None \<Rightarrow> False | Some e \<Rightarrow> chain h (next e) as))"

definition tq_shape :: "'a TaskQueue \<Rightarrow> addr list \<Rightarrow> bool" where
  "tq_shape q as =
     (chain (nodes q) (head q) as \<and> distinct as \<and> list_all (\<lambda>a. a < allocated q) as
      \<and> tail q = (if as = [] then None else Some (last as)))"

definition tq_wf :: "'a TaskQueue \<Rightarrow> bool" where
  "tq_wf q = (\<exists>as. tq_shape q as)"

text \<open>The values stored at a list of addresses, in order.\<close>

fun elems :: "(addr \<rightharpoonup> 'a QueueElement) \<Rightarrow> addr list \<Rightarrow> 'a list" where
  "elems h [] = []"
| "elems h (a # as) = (case h a of None \<Rightarrow> [] | Some e \<Rightarrow> value e # elems h as)"

text \<open>
  What holds of the queue and its consumer between any two steps: the queue has its
  shape; a waiter is registered on the lock exactly while the consumer is parked, and
  then the queue is empty; a resumed consumer finds a head.
\<close>

definition tq_inv :: "'a tq_system \<Rightarrow> bool" where
  "tq_inv s =
     (tq_wf (queue s) \<and>
      (case consumer s of
         AtLoopTop \<Rightarrow> resolve (tq_lock (queue s)) = None
       | Parked \<Rightarrow> resolve (tq_lock (queue s)) \<noteq> None \<and> head (queue s) = None
       | Resumed \<Rightarrow> resolve (tq_lock (queue s)) = None \<and> head (queue s) \<noteq> None))"

section \<open>WorkerPool: the table of pending results and the event handlers\<close>

text \<open>
  Of the fields of \<^verbatim>\<open>WorkerPool\<close> the model keeps the tracker, the queue and
  \<^verbatim>\<open>notifications\<close>, the \<^verbatim>\<open>Map\<close> from task ids to the resolve functions of the promises
  that \<^verbatim>\<open>addTask\<close> returned; a resolve function is identified with its promise, a
  \<open>resolver\<close>. The thread handles in \<^verbatim>\<open>workers\<close> belong to \<^verbatim>\<open>worker_threads\<close> and are
  left out. A task is the object \<^verbatim>\<open>{id, data}\<close>.
\<close>

type_synonym resolver = nat

record 'a Task =
  task_id :: string
  data :: 'a

record 'a WorkerPool =
  pool_availability :: AvailabilityQueue
  taskQueue :: "'a Task TaskQueue"
  notifications :: "string \<rightharpoonup> resolver"

text \<open>The pool as \<^verbatim>\<open>getInstance\<close> sets it up before any worker is online.\<close>

definition WorkerPool_new :: "nat \<Rightarrow> 'a WorkerPool" where
  "WorkerPool_new poolSize =
     \<lparr>pool_availability = AvailabilityQueue_new poolSize,
      taskQueue = TaskQueue_new,
      notifications = Map.empty\<rparr>"



text \<open>The handlers of \<^verbatim>\<open>exit\<close> and \<^verbatim>\<open>online\<close>; the handler of \<^verbatim>\<open>error\<close> only logs.\<close>

definition on_exit :: "nat \<Rightarrow> 'a WorkerPool \<Rightarrow> 'a WorkerPool" where
  "on_exit workerId p = p\<lparr>pool_availability := freeze workerId (pool_availability p)\<rparr>"


text \<open>
  \<^verbatim>\<open>addTask(data)\<close>. The promise executor runs inside the call: it takes an id from
  \<^verbatim>\<open>crypto.randomUUID()\<close>, stores the resolve function of the new promise under it and
  pushes the task. The id that \<^verbatim>\<open>randomUUID\<close> returned and the new promise are
  arguments of the model, \<open>uuid\<close> and \<open>r\<close>; the waiter that \<^verbatim>\<open>push\<close> resumed is
  returned next to the pool. No statement of the executor reads the tracker or waits.
\<close>

definition addTask :: "string \<Rightarrow> resolver \<Rightarrow> 'a \<Rightarrow> 'a WorkerPool \<Rightarrow> waiter option \<times> 'a WorkerPool" where
  "addTask uuid r d p =
     (let p1 = p\<lparr>notifications := (notifications p)(uuid \<mapsto> r)\<rparr>
      in case push \<lparr>task_id = uuid, data = d\<rparr> (taskQueue p1) of
           (woken, q) \<Rightarrow> (woken, p1\<lparr>taskQueue := q\<rparr>))"


section \<open>The idle count of the tracker\<close>

lemma idle_update_False:
  "i < length xs \<Longrightarrow> xs ! i \<Longrightarrow>
   Suc (length (filter (\<lambda>b. b) (xs[i := False]))) = length (filter (\<lambda>b. b) xs)"
proof (induction xs arbitrary: i)
  case Nil
  then show ?case by simp
next
  case (Cons x xs)
  show ?case
  proof (cases i)
    case 0
    with Cons.prems show ?thesis by simp
  next
    case (Suc j)
    with Cons.prems have j: "j < length xs" "xs ! j" by simp_all
    with Cons.IH [OF j] Suc show ?thesis by simp
  qed
qed

lemma idle_update_True:
  "i < length xs \<Longrightarrow> \<not> xs ! i \<Longrightarrow>
   length (filter (\<lambda>b. b) (xs[i := True])) = Suc (length (filter (\<lambda>b. b) xs))"
proof (induction xs arbitrary: i)
  case Nil
  then show ?case by simp
next
  case (Cons x xs)
  show ?case
  proof (cases i)
    case 0
    with Cons.prems show ?thesis by simp
  next
    case (Suc j)
    with Cons.prems have j: "j < length xs" "\<not> xs ! j" by simp_all
    with Cons.IH [OF j] Suc show ?thesis by simp
  qed
qed

lemma freeze_inv: "aq_inv s \<Longrightarrow> aq_inv (freeze i s)"
proof (cases "flag (availability s) i")
  case True
  then have "i < length (availability s)" "availability s ! i"
    by (simp_all add: flag_def split: if_splits)
  from idle_update_False [OF this]
  have "int (length (filter (\<lambda>b. b) ((availability s)[i := False]))) =
        int (length (filter (\<lambda>b. b) (availability s))) - 1"
    by linarith
  moreover assume "aq_inv s"
  ultimately show ?thesis
    using True by (simp add: aq_inv_def idle_slots_def freeze_def flag_def store_flag_def split: if_splits)
next
  case False
  moreover assume "aq_inv s"
  ultimately show ?thesis by (simp add: freeze_def)
qed

lemma enable_inv: "aq_inv s \<Longrightarrow> aq_inv (snd (enable i s))"
  by (auto simp: aq_inv_def idle_slots_def enable_def flag_def store_flag_def idle_update_True
           split: if_splits prod.splits)

lemma scan_inv: "aq_inv s \<Longrightarrow> aq_inv (snd (scan i s))"
proof (induction i s rule: scan.induct)
  case (1 i s)
  then show ?case
    by (subst scan.simps) (simp add: freeze_inv)
qed

lemma getAvailability_inv: "aq_inv s \<Longrightarrow> aq_inv (snd (getAvailability w s))"
  using scan_inv [of s 0]
  by (auto simp: getAvailability_def aq_inv_def idle_slots_def split: prod.splits)

lemma aq_step_inv: "aq_inv s \<Longrightarrow> aq_inv (aq_step x s)"
  by (cases x) (simp_all add: freeze_inv enable_inv getAvailability_inv)

lemma aq_run_inv: "aq_inv s \<Longrightarrow> aq_inv (aq_run xs s)"
  by (induction xs arbitrary: s) (simp_all add: aq_step_inv)

lemma new_inv: "aq_inv (AvailabilityQueue_new n)"
  by (simp add: aq_inv_def idle_slots_def AvailabilityQueue_new_def)

text \<open>
  Claim C1. Initially and after every sequence of \<^verbatim>\<open>freeze\<close>, \<^verbatim>\<open>enable\<close> and
  \<^verbatim>\<open>getAvailability\<close> calls on a new tracker of any size, the stored
  \<^verbatim>\<open>availabilityCount\<close> equals the number of slots whose flag is \<^verbatim>\<open>true\<close>.
\<close>

theorem idle_count_invariant:
  "availabilityCount (aq_run ops (AvailabilityQueue_new n)) =
   int (idle_slots (aq_run ops (AvailabilityQueue_new n)))"
  using aq_run_inv [OF new_inv, of ops n] by (simp add: aq_inv_def)


section \<open>What the scan returns\<close>

lemma scan_finds:
  "i \<le> k \<Longrightarrow> k < length (availability s) \<Longrightarrow> availability s ! k \<Longrightarrow>
   (\<forall>j. i \<le> j \<and> j < k \<longrightarrow> \<not> availability s ! j) \<Longrightarrow>
   scan i s = (int k, freeze k s)"
proof (induction i s rule: scan.induct)
  case (1 i s)
  show ?case
  proof (cases "i = k")
    case True
    with "1.prems" show ?thesis
      by (subst scan.simps) (simp add: flag_def)
  next
    case False
    with "1.prems" have lt: "i < k" by simp
    with "1.prems" have nf: "\<not> flag (availability s) i" by (simp add: flag_def)
    from lt "1.prems" have il: "i < length (availability s)" by simp
    have "scan (Suc i) s = (int k, freeze k s)"
      using "1.IH" [OF il nf] lt "1.prems" by simp
    with il nf show ?thesis by (subst scan.simps) simp
  qed
qed

lemma idle_exists:
  "0 < length (filter (\<lambda>b. b) xs) \<Longrightarrow> \<exists>k<length xs. xs ! k"
  by (induction xs) (auto split: if_splits)

lemma first_idle:
  assumes "0 < availabilityCount s" and "aq_inv s"
  shows "\<exists>k. k < length (availability s) \<and> availability s ! k \<and>
             (\<forall>j<k. \<not> availability s ! j)"
proof -
  from assms have "0 < length (filter (\<lambda>b. b) (availability s))"
    by (simp add: aq_inv_def idle_slots_def)
  then obtain m where m: "m < length (availability s) \<and> availability s ! m"
    using idle_exists by blast
  define k where "k = (LEAST m. m < length (availability s) \<and> availability s ! m)"
  have "k < length (availability s) \<and> availability s ! k"
    unfolding k_def using m by (rule LeastI)
  moreover have "\<not> availability s ! j" if "j < k" for j
  proof
    assume "availability s ! j"
    moreover from that \<open>k < length (availability s) \<and> availability s ! k\<close>
    have "j < length (availability s)" by simp
    ultimately have "k \<le> j" unfolding k_def by (simp add: Least_le)
    with that show False by simp
  qed
  ultimately show ?thesis by blast
qed

text \<open>
  Claim C2. In a tracker state whose count is positive and equals the number of set
  flags, \<^verbatim>\<open>getAvailability\<close> returns the smallest slot id \<open>k\<close> whose flag is set, and
  the state it leaves differs from the one it found in exactly this: the flag of \<open>k\<close>
  is \<^verbatim>\<open>false\<close> and the count is one less. For instance, with slots 0, 2, 3
  idle and slot 1 busy, 0 is returned.
\<close>

theorem getAvailability_lowest_idle:
  assumes "0 < availabilityCount s" and "aq_inv s"
  shows "\<exists>k. getAvailability w s =
               (Returned (int k),
                s\<lparr>availability := (availability s)[k := False],
                  availabilityCount := availabilityCount s - 1\<rparr>)
           \<and> k < length (availability s) \<and> availability s ! k
           \<and> (\<forall>j<k. \<not> availability s ! j)"
proof -
  from first_idle [OF assms] obtain k where
    k: "k < length (availability s)" "availability s ! k" "\<forall>j<k. \<not> availability s ! j"
    by blast
  then have "scan 0 s = (int k, freeze k s)"
    by (intro scan_finds) simp_all
  moreover from k have "freeze k s =
      s\<lparr>availability := (availability s)[k := False],
        availabilityCount := availabilityCount s - 1\<rparr>"
    by (simp add: freeze_def flag_def store_flag_def)
  ultimately have "getAvailability w s =
      (Returned (int k),
       s\<lparr>availability := (availability s)[k := False],
         availabilityCount := availabilityCount s - 1\<rparr>)"
    using assms(1) by (simp add: getAvailability_def)
  with k show ?thesis by blast
qed

theorem getAvailability_lowest_idle_witness:
  "0 < availabilityCount \<lparr>availability = [True, False, True, True], availabilityCount = 3,
                           aq_lock = Lock_new\<rparr>
   \<and> aq_inv \<lparr>availability = [True, False, True, True], availabilityCount = 3,
             aq_lock = Lock_new\<rparr>
   \<and> getAvailability 0 \<lparr>availability = [True, False, True, True], availabilityCount = 3,
                        aq_lock = Lock_new\<rparr> =
       (Returned 0, \<lparr>availability = [False, False, True, True], availabilityCount = 2,
                    aq_lock = Lock_new\<rparr>)"
proof -
  let ?s = "\<lparr>availability = [True, False, True, True], availabilityCount = 3,
             aq_lock = Lock_new\<rparr>"
  have c: "0 < availabilityCount ?s" by simp
  have i: "aq_inv ?s" by (simp add: aq_inv_def idle_slots_def)
  from getAvailability_lowest_idle [OF c i, of 0] obtain k where
    g: "getAvailability 0 ?s =
          (Returned (int k),
           ?s\<lparr>availability := (availability ?s)[k := False],
              availabilityCount := availabilityCount ?s - 1\<rparr>)"
    and m: "\<forall>j<k. \<not> availability ?s ! j"
    by blast
  have "k = 0"
  proof (rule ccontr)
    assume "k \<noteq> 0"
    then have "0 < k" by simp
    with m have "\<not> availability ?s ! 0" by blast
    then show False by simp
  qed
  with g c i show ?thesis by simp
qed


lemma scan_result:
  "scan i s = (r, s') \<Longrightarrow>
   (r = - 1 \<and> s' = s)
   \<or> (\<exists>k. r = int k \<and> k < length (availability s) \<and> availability s ! k
            \<and> s' = freeze k s)"
proof (induction i s rule: scan.induct)
  case (1 i s)
  show ?case
  proof (cases "i < length (availability s)")
    case False
    with "1.prems" show ?thesis by (subst (asm) scan.simps) simp
  next
    case il: True
    show ?thesis
    proof (cases "flag (availability s) i")
      case True
      with il "1.prems" have "r = int i" "s' = freeze i s"
        by (subst (asm) scan.simps, simp)+
      with il True show ?thesis by (auto simp: flag_def)
    next
      case False
      with il "1.prems" have "scan (Suc i) s = (r, s')"
        by (subst (asm) scan.simps) simp
      from "1.IH" [OF il False this] show ?thesis .
    qed
  qed
qed

text \<open>
  Claim C10. Under the invariant that the count equals the number of set flags, a run
  of \<^verbatim>\<open>getAvailability\<close> either suspends, and then the count is not positive, or
  reaches the scan with a positive count and returns an index inside the array whose
  flag was set: the \<^verbatim>\<open>return -1\<close> after the loop is never taken.
\<close>

theorem getAvailability_fallback_unreachable:
  assumes "aq_inv s"
  shows "case fst (getAvailability w s) of
           Suspended \<Rightarrow> availabilityCount s \<le> 0
         | Returned r \<Rightarrow> 0 < availabilityCount s \<and> 0 \<le> r \<and> r < int (length (availability s))
                          \<and> flag (availability s) (nat r)"
proof (cases "availabilityCount s \<le> 0")
  case True
  then show ?thesis by (simp add: getAvailability_def)
next
  case False
  then have pos: "0 < availabilityCount s" by simp
  from first_idle [OF pos assms] obtain k where
    k: "k < length (availability s)" "availability s ! k" "\<forall>j<k. \<not> availability s ! j"
    by blast
  then have "scan 0 s = (int k, freeze k s)"
    by (intro scan_finds) simp_all
  with pos k show ?thesis by (simp add: getAvailability_def flag_def)
qed

theorem getAvailability_fallback_unreachable_witness:
  "aq_inv \<lparr>availability = [False, True], availabilityCount = 1, aq_lock = Lock_new\<rparr>
   \<and> fst (getAvailability 0 \<lparr>availability = [False, True], availabilityCount = 1,
                              aq_lock = Lock_new\<rparr>) = Returned 1
   \<and> aq_inv (AvailabilityQueue_new 2)
   \<and> fst (getAvailability 0 (AvailabilityQueue_new 2)) = Suspended"
proof -
  let ?s = "\<lparr>availability = [False, True], availabilityCount = 1, aq_lock = Lock_new\<rparr>"
  have i: "aq_inv ?s" by (simp add: aq_inv_def idle_slots_def)
  have j: "aq_inv (AvailabilityQueue_new 2)"
    by (simp add: aq_inv_def idle_slots_def AvailabilityQueue_new_def)
  have sc: "scan 0 ?s = (1, freeze 1 ?s)"
    by (simp add: scan.simps flag_def)
  from getAvailability_fallback_unreachable [OF i, of 0]
       getAvailability_fallback_unreachable [OF j, of 0] i j sc
  show ?thesis
    by (simp add: getAvailability_def AvailabilityQueue_new_def)
qed

section \<open>Retired slots\<close>

lemma flag_store_other:
  "i \<noteq> j \<Longrightarrow> flag (store_flag xs j b) i = flag xs i"
  by (auto simp: flag_def store_flag_def nth_append)

lemma flag_store_False: "flag xs j \<Longrightarrow> \<not> flag (store_flag xs j False) j"
  by (simp add: flag_def store_flag_def split: if_splits)

lemma freeze_clears: "\<not> flag (availability (freeze i s)) i"
  by (simp add: freeze_def flag_store_False)

lemma freeze_keeps_busy:
  "\<not> flag (availability s) i \<Longrightarrow> \<not> flag (availability (freeze j s)) i"
  by (cases "i = j") (simp_all add: freeze_clears, simp add: freeze_def flag_store_other)

lemma enable_keeps_busy:
  "i \<noteq> j \<Longrightarrow> \<not> flag (availability s) i \<Longrightarrow> \<not> flag (availability (snd (enable j s))) i"
  by (simp add: enable_def flag_store_other split: prod.splits)

lemma getAvailability_keeps_busy:
  assumes "\<not> flag (availability s) i"
  shows "\<not> flag (availability (snd (getAvailability w s))) i
         \<and> fst (getAvailability w s) \<noteq> Returned (int i)"
proof (cases "availabilityCount s \<le> 0")
  case True
  with assms show ?thesis by (simp add: getAvailability_def)
next
  case False
  obtain r s' where sc: "scan 0 s = (r, s')" by (cases "scan 0 s")
  from scan_result [OF sc] show ?thesis
  proof
    assume "r = - 1 \<and> s' = s"
    with assms False sc show ?thesis by (simp add: getAvailability_def)
  next
    assume "\<exists>k. r = int k \<and> k < length (availability s) \<and> availability s ! k \<and> s' = freeze k s"
    then obtain k where k: "r = int k" "k < length (availability s)" "availability s ! k"
      "s' = freeze k s" by blast
    with assms have "k \<noteq> i" by (auto simp: flag_def)
    with k assms False sc show ?thesis
      by (simp add: getAvailability_def freeze_keeps_busy)
  qed
qed


lemma aq_step_keeps_busy:
  "x \<noteq> Enable i \<Longrightarrow> \<not> flag (availability s) i \<Longrightarrow> \<not> flag (availability (aq_step x s)) i"
  by (cases x) (auto simp: freeze_keeps_busy enable_keeps_busy getAvailability_keeps_busy)

lemma busy_never_returned:
  "\<not> flag (availability s) i \<Longrightarrow> Enable i \<notin> set ops \<Longrightarrow>
   Returned (int i) \<notin> set (aq_results ops s)"
proof (induction ops arbitrary: s)
  case Nil
  then show ?case by simp
next
  case (Cons x xs)
  from Cons.prems have x: "x \<noteq> Enable i" and xs: "Enable i \<notin> set xs" by auto
  from aq_step_keeps_busy [OF x Cons.prems(1)]
  have "Returned (int i) \<notin> set (aq_results xs (aq_step x s))"
    using Cons.IH xs by blast
  then show ?case
    using getAvailability_keeps_busy [OF Cons.prems(1)]
    by (cases x) (auto dest: sym)
qed

text \<open>
  Claim C8. After \<^verbatim>\<open>freeze(i)\<close>, and so after the \<^verbatim>\<open>exit\<close> handler of the worker of slot
  \<open>i\<close>, whatever calls follow on the tracker, as long as \<^verbatim>\<open>enable(i)\<close> is not among
  them, no \<^verbatim>\<open>getAvailability\<close> returns \<open>i\<close>.
\<close>

theorem retired_slot_never_claimed:
  assumes "Enable i \<notin> set ops"
  shows "Returned (int i) \<notin> set (aq_results ops (freeze i s))
         \<and> Returned (int i) \<notin> set (aq_results ops (pool_availability (on_exit i p)))"
proof -
  have "Returned (int i) \<notin> set (aq_results ops (freeze i t))" for t
    using freeze_clears assms by (rule busy_never_returned)
  then show ?thesis by (simp add: on_exit_def)
qed

theorem retired_slot_never_claimed_witness:
  "Enable 1 \<notin> set [GetAvailability 0, Enable 0, GetAvailability 0, GetAvailability 0]
   \<and> aq_results [GetAvailability 0, Enable 0, GetAvailability 0, GetAvailability 0]
        (freeze 1 \<lparr>availability = [True, True], availabilityCount = 2, aq_lock = Lock_new\<rparr>)
      = [Returned 0, Returned 0, Suspended]
   \<and> Returned 1 \<notin> set (aq_results
        [GetAvailability 0, Enable 0, GetAvailability 0, GetAvailability 0]
        (freeze 1 \<lparr>availability = [True, True], availabilityCount = 2, aq_lock = Lock_new\<rparr>))"
proof -
  have e: "Enable 1 \<notin> set [GetAvailability 0, Enable 0, GetAvailability 0, GetAvailability 0]"
    by simp
  have r: "aq_results [GetAvailability 0, Enable 0, GetAvailability 0, GetAvailability 0]
        (freeze 1 \<lparr>availability = [True, True], availabilityCount = 2, aq_lock = Lock_new\<rparr>)
      = [Returned 0, Returned 0, Suspended]"
    by (simp add: freeze_def flag_def store_flag_def getAvailability_def scan.simps enable_def
                  release_def Lock_new_def acquire_def)
  from retired_slot_never_claimed [OF e,
      of "\<lparr>availability = [True, True], availabilityCount = 2, aq_lock = Lock_new\<rparr>"
         "WorkerPool_new 2"]
  show ?thesis using e r by simp
qed


section \<open>Signals on the lock\<close>

lemma release_unregistered: "release (l\<lparr>resolve := None\<rparr>) = (None, l\<lparr>resolve := None\<rparr>)"
  by (simp add: release_def)

lemma lock_run_releases_idle:
  "lock_run (replicate n Release) (l\<lparr>resolve := None\<rparr>, rs) = (l\<lparr>resolve := None\<rparr>, rs)"
  by (induction n) (simp_all add: release_unregistered)

text \<open>
  Claim C6. \<^verbatim>\<open>release\<close> resumes the registered waiter and no other, and leaves no
  registration. A \<^verbatim>\<open>release\<close> on a lock with no registration changes nothing: a
  waiter that calls \<^verbatim>\<open>acquire\<close> afterwards is registered and not resumed, and the
  next \<^verbatim>\<open>release\<close> resumes it. Of two \<^verbatim>\<open>acquire\<close> calls in a row the second
  replaces the registration of the first: any number of later \<^verbatim>\<open>release\<close> calls
  resume the second waiter only.
\<close>

theorem lock_signal_semantics:
  "fst (release l) = resolve l
   \<and> resolve (snd (release l)) = None
   \<and> lock_step Release (l, rs) =
       (l\<lparr>resolve := None\<rparr>, rs @ (case resolve l of None \<Rightarrow> [] | Some w \<Rightarrow> [w]))
   \<and> lock_run [Release, Acquire w] (Lock_new, rs) = (\<lparr>resolve = Some w\<rparr>, rs)
   \<and> lock_run [Release, Acquire w, Release] (Lock_new, rs) = (Lock_new, rs @ [w])
   \<and> lock_run [Acquire w1, Acquire w2] (l, rs) = (l\<lparr>resolve := Some w2\<rparr>, rs)
   \<and> lock_run (Acquire w1 # Acquire w2 # replicate (Suc n) Release) (l, rs) =
       (l\<lparr>resolve := None\<rparr>, rs @ [w2])"
proof -
  have a: "fst (release l) = resolve l" "resolve (snd (release l)) = None"
    by (simp_all add: release_def split: option.splits)
  have b: "lock_step Release (l, rs) =
       (l\<lparr>resolve := None\<rparr>, rs @ (case resolve l of None \<Rightarrow> [] | Some w \<Rightarrow> [w]))"
    by (cases "resolve l") (simp_all add: release_def)
  have c: "lock_run [Release, Acquire w] (Lock_new, rs) = (\<lparr>resolve = Some w\<rparr>, rs)"
    "lock_run [Release, Acquire w, Release] (Lock_new, rs) = (Lock_new, rs @ [w])"
    by (simp_all add: release_def acquire_def Lock_new_def)
  have d: "lock_run [Acquire w1, Acquire w2] (l, rs) = (l\<lparr>resolve := Some w2\<rparr>, rs)"
    by (simp add: acquire_def)
  have "lock_run (Acquire w1 # Acquire w2 # replicate (Suc n) Release) (l, rs) =
        lock_run (replicate n Release) (l\<lparr>resolve := None\<rparr>, rs @ [w2])"
    by (simp add: acquire_def release_def)
  with lock_run_releases_idle [of n l "rs @ [w2]"] a b c d show ?thesis by simp
qed

theorem lock_signal_semantics_witness:
  "lock_run [Release, Acquire 5] (Lock_new, []) = (\<lparr>resolve = Some 5\<rparr>, [])
   \<and> lock_run [Release, Acquire 5, Release] (Lock_new, []) = (Lock_new, [5])
   \<and> lock_run [Acquire 1, Acquire 2, Release, Release, Release] (Lock_new, []) = (Lock_new, [2])"
proof -
  note t = lock_signal_semantics [of Lock_new "[]" 5 1 2 "Suc (Suc 0)"]
  from t have 1: "lock_run [Release, Acquire 5] (Lock_new, []) = (\<lparr>resolve = Some 5\<rparr>, [])"
    by blast
  from t have 2: "lock_run [Release, Acquire 5, Release] (Lock_new, []) = (Lock_new, [] @ [5])"
    by blast
  from t have "lock_run (Acquire 1 # Acquire 2 # replicate (Suc (Suc (Suc 0))) Release)
                 (Lock_new, []) = (Lock_new\<lparr>resolve := None\<rparr>, [] @ [2])"
    by blast
  then have 3: "lock_run [Acquire 1, Acquire 2, Release, Release, Release] (Lock_new, []) =
                (Lock_new, [2])"
    by (simp add: Lock_new_def)
  from 1 2 3 show ?thesis by simp
qed

section \<open>The shape of the queue in the store\<close>

lemma set_prev_apply:
  "set_prev h b v a = (if a = b then map_option (\<lambda>e. e\<lparr>prev := v\<rparr>) (h b) else h a)"
  by (simp add: set_prev_def split: option.splits)

lemma set_next_apply:
  "set_next h b v a = (if a = b then map_option (\<lambda>e. e\<lparr>next := v\<rparr>) (h b) else h a)"
  by (simp add: set_next_def split: option.splits)

lemma chain_store_other:
  "a \<notin> set as \<Longrightarrow> chain (h(a \<mapsto> e)) p as = chain h p as"
  by (induction as arbitrary: p) (auto split: option.splits)

lemma chain_set_prev: "chain (set_prev h b v) p as = chain h p as"
  by (induction as arbitrary: p) (auto simp: set_prev_apply split: option.splits)

lemma chain_set_next_other:
  "b \<notin> set as \<Longrightarrow> chain (set_next h b v) p as = chain h p as"
  by (induction as arbitrary: p) (auto simp: set_next_apply split: option.splits)

lemma chain_snoc:
  "chain h p as \<Longrightarrow> as \<noteq> [] \<Longrightarrow> distinct as \<Longrightarrow> a \<notin> set as \<Longrightarrow>
   chain (set_next (h(a \<mapsto> \<lparr>prev = pv, next = None, value = x\<rparr>)) (last as) (Some a)) p
     (as @ [a])"
proof (induction as arbitrary: p)
  case Nil
  then show ?case by simp
next
  case (Cons b bs)
  from Cons.prems obtain e where e: "p = Some b" "h b = Some e" "chain h (next e) bs"
    by (auto split: option.splits)
  from Cons.prems have ba: "b \<noteq> a" and bbs: "b \<notin> set bs" by auto
  define h0 where "h0 = h(a \<mapsto> \<lparr>prev = pv, next = None, value = x\<rparr>)"
  have h0: "h0 a = Some \<lparr>prev = pv, next = None, value = x\<rparr>" "h0 b = Some e"
    using e ba by (simp_all add: h0_def)
  show ?case
  proof (cases "bs = []")
    case True
    define h1 where "h1 = set_next h0 b (Some a)"
    have "h1 b = Some (e\<lparr>next := Some a\<rparr>)" "h1 a = Some \<lparr>prev = pv, next = None, value = x\<rparr>"
      using h0 ba by (simp_all add: h1_def set_next_apply)
    then have c: "chain h1 p [b, a]" using e by simp
    have eq: "(b # bs) @ [a] = [b, a]" "last (b # bs) = b" using True by simp_all
    show ?thesis unfolding eq using c unfolding h1_def h0_def .
  next
    case False
    with bbs have bl: "b \<noteq> last bs" by (metis last_in_set)
    from Cons.prems have d: "distinct bs" "a \<notin> set bs" by auto
    define h1 where "h1 = set_next h0 (last bs) (Some a)"
    have ih: "chain h1 (next e) (bs @ [a])"
      using Cons.IH [OF e(3) False d] unfolding h1_def h0_def .
    have "h1 b = Some e"
      using h0 bl by (simp add: h1_def set_next_apply)
    with ih e have c: "chain h1 p (b # bs @ [a])" by simp
    have eq: "(b # bs) @ [a] = b # bs @ [a]" "last (b # bs) = last bs" using False by simp_all
    show ?thesis unfolding eq using c unfolding h1_def h0_def .
  qed
qed

lemma walk_chain:
  "chain h p as \<Longrightarrow> length as \<le> n \<Longrightarrow> walk h n p = elems h as"
proof (induction as arbitrary: p n)
  case Nil
  then show ?case by (cases n) simp_all
next
  case (Cons a as)
  then obtain m where "n = Suc m" by (cases n) auto
  with Cons show ?case by (auto split: option.splits)
qed

lemma elems_store_other: "a \<notin> set as \<Longrightarrow> elems (h(a \<mapsto> e)) as = elems h as"
  by (induction as) (auto split: option.splits)

lemma elems_set_prev: "elems (set_prev h b v) as = elems h as"
  by (induction as) (auto simp: set_prev_apply split: option.splits)

lemma elems_set_next: "elems (set_next h b v) as = elems h as"
  by (induction as) (auto simp: set_next_apply split: option.splits)

lemma elems_snoc:
  "chain h p as \<Longrightarrow> h a = Some e \<Longrightarrow> elems h (as @ [a]) = elems h as @ [value e]"
  by (induction as arbitrary: p) (auto split: option.splits)

lemma shape_length:
  assumes "distinct as" "list_all (\<lambda>a. a < n) as"
  shows "length as \<le> n"
proof -
  from assms(2) have "set as \<subseteq> {..<n}" by (auto simp: list_all_iff)
  then have "card (set as) \<le> card {..<n}" by (intro card_mono) simp_all
  with assms(1) show ?thesis by (simp add: distinct_card)
qed

lemma shape_contents: "tq_shape q as \<Longrightarrow> tq_contents q = elems (nodes q) as"
  unfolding tq_shape_def tq_contents_def
  by (intro walk_chain) (auto intro: shape_length)


lemma push_link_shape:
  assumes "tq_shape q as"
  shows "tq_shape (push_link x q) (as @ [allocated q])"
    and "elems (nodes (push_link x q)) (as @ [allocated q]) = elems (nodes q) as @ [x]"
    and "tq_lock (push_link x q) = tq_lock q"
proof -
  let ?a = "allocated q"
  from assms have c: "chain (nodes q) (head q) as" and d: "distinct as"
    and lt: "list_all (\<lambda>a. a < ?a) as"
    and t: "tail q = (if as = [] then None else Some (last as))"
    by (simp_all add: tq_shape_def)
  from lt have fresh: "?a \<notin> set as" by (auto simp: list_all_iff)
  from lt have lt': "list_all (\<lambda>a. a < Suc ?a) (as @ [?a])"
    by (auto simp: list_all_iff)
  show "tq_lock (push_link x q) = tq_lock q"
    by (simp add: push_link_def Let_def split: option.splits)
  show "tq_shape (push_link x q) (as @ [allocated q])"
  proof (cases "as = []")
    case True
    with c t show ?thesis by (simp add: tq_shape_def push_link_def Let_def)
  next
    case False
    let ?h = "set_next ((nodes q)(?a \<mapsto> \<lparr>prev = Some (last as), next = None, value = x\<rparr>))
                (last as) (Some ?a)"
    from False t have pl: "push_link x q =
        q\<lparr>nodes := ?h, tail := Some ?a, allocated := Suc ?a\<rparr>"
      by (simp add: push_link_def Let_def)
    have "chain ?h (head q) (as @ [?a])"
      using c False d fresh by (rule chain_snoc)
    with d fresh lt' show ?thesis
      unfolding pl by (simp add: tq_shape_def)
  qed
  show "elems (nodes (push_link x q)) (as @ [allocated q]) = elems (nodes q) as @ [x]"
  proof (cases "as = []")
    case True
    with c t show ?thesis by (simp add: push_link_def Let_def)
  next
    case False
    let ?e = "\<lparr>prev = Some (last as), next = None, value = x\<rparr>"
    let ?h0 = "(nodes q)(?a \<mapsto> ?e)"
    from False t have n: "nodes (push_link x q) = set_next ?h0 (last as) (Some ?a)"
      by (simp add: push_link_def Let_def)
    have c0: "chain ?h0 (head q) as" using c fresh by (simp add: chain_store_other)
    have e1: "elems ?h0 (as @ [?a]) = elems ?h0 as @ [value ?e]"
      using c0 by (rule elems_snoc) simp
    have e2: "elems ?h0 as = elems (nodes q) as"
      using fresh by (rule elems_store_other)
    have e3: "value ?e = x" by simp
    show ?thesis unfolding n elems_set_next e1 e2 e3 ..
  qed
qed

lemma chain_head: "chain h p as \<Longrightarrow> (p = None) = (as = [])"
  by (cases as) auto

lemma push_shape:
  assumes "tq_shape q as"
  shows "tq_shape (snd (push x q)) (as @ [allocated q])"
    and "tq_contents (snd (push x q)) = tq_contents q @ [x]"
    and "fst (push x q) = resolve (tq_lock q)"
    and "resolve (tq_lock (snd (push x q))) = None"
    and "head (snd (push x q)) \<noteq> None"
proof -
  obtain w l where r: "release (tq_lock (push_link x q)) = (w, l)"
    by (cases "release (tq_lock (push_link x q))")
  then have p: "push x q = (w, (push_link x q)\<lparr>tq_lock := l\<rparr>)"
    by (simp add: push_def Let_def)
  from r have wl: "w = resolve (tq_lock q)" "resolve l = None"
    by (auto simp: release_def push_link_shape(3) [OF assms] split: option.splits)
  from push_link_shape(1) [OF assms, of x]
  show sh: "tq_shape (snd (push x q)) (as @ [allocated q])"
    unfolding p by (simp add: tq_shape_def)
  from shape_contents [OF sh] push_link_shape(2) [OF assms, of x] shape_contents [OF assms]
  show "tq_contents (snd (push x q)) = tq_contents q @ [x]"
    unfolding p by simp
  from wl show "fst (push x q) = resolve (tq_lock q)"
    and "resolve (tq_lock (snd (push x q))) = None"
    unfolding p by simp_all
  from sh have "chain (nodes (snd (push x q))) (head (snd (push x q))) (as @ [allocated q])"
    by (simp add: tq_shape_def)
  from chain_head [OF this] show "head (snd (push x q)) \<noteq> None" by simp
qed

lemma dequeue_shape:
  assumes "tq_shape q (a # as)"
  shows "\<exists>x q'. dequeue q = Inr (x, q') \<and> tq_shape q' as \<and> tq_contents q = x # tq_contents q'
                \<and> tq_lock q' = tq_lock q"
proof -
  from assms have c: "chain (nodes q) (head q) (a # as)" and d: "distinct (a # as)"
    and lt: "list_all (\<lambda>b. b < allocated q) (a # as)"
    and t: "tail q = Some (last (a # as))"
    by (simp_all add: tq_shape_def)
  from c obtain e where e: "head q = Some a" "nodes q a = Some e" "chain (nodes q) (next e) as"
    by (auto split: option.splits)
  have cq: "tq_contents q = value e # elems (nodes q) as"
    using shape_contents [OF assms] e by simp
  show ?thesis
  proof (cases as)
    case Nil
    with e t have dq: "dequeue q = Inr (value e, q\<lparr>head := None, tail := None\<rparr>)"
      by (simp add: dequeue_def)
    have sh: "tq_shape (q\<lparr>head := None, tail := None\<rparr>) []"
      by (simp add: tq_shape_def)
    from shape_contents [OF sh] cq Nil dq sh show ?thesis by simp
  next
    case (Cons b bs)
    with d have "a \<noteq> last (b # bs)" by (metis distinct.simps(2) last_in_set list.distinct(1))
    with Cons t e have ne: "head q \<noteq> tail q" by simp
    from e Cons have nb: "next e = Some b" by (auto split: option.splits)
    let ?q = "q\<lparr>nodes := set_prev (nodes q) b None, head := Some b\<rparr>"
    from e ne nb have dq: "dequeue q = Inr (value e, ?q)"
      by (simp add: dequeue_def)
    from e(3) nb have "chain (nodes q) (Some b) as" by simp
    then have c3: "chain (nodes ?q) (head ?q) as"
      by (simp add: chain_set_prev del: chain.simps)
    have rest: "distinct as" "list_all (\<lambda>b. b < allocated ?q) as"
      "tail ?q = (if as = [] then None else Some (last as))"
      using d lt t Cons by simp_all
    have sh: "tq_shape ?q as"
      unfolding tq_shape_def using c3 rest by blast
    from shape_contents [OF sh] have "tq_contents ?q = elems (nodes q) as"
      by (simp add: elems_set_prev)
    with cq dq sh show ?thesis by simp
  qed
qed


section \<open>Queue and consumer\<close>

lemma shape_head: "tq_shape q as \<Longrightarrow> (head q = None) = (as = [])"
  unfolding tq_shape_def by (auto dest: chain_head)

lemma shape_tail: "tq_shape q as \<Longrightarrow> (tail q = None) = (as = [])"
  unfolding tq_shape_def by auto

lemma shape_empty: "tq_shape q as \<Longrightarrow> (tq_contents q = []) = (as = [])"
proof -
  assume sh: "tq_shape q as"
  show ?thesis
  proof (cases as)
    case Nil
    with shape_contents [OF sh] show ?thesis by simp
  next
    case (Cons a bs)
    with dequeue_shape [of q a bs] sh show ?thesis by auto
  qed
qed

lemma wf_head_tail:
  assumes "tq_wf q"
  shows "(head q = None) = (tail q = None)" and "(head q = None) = (tq_contents q = [])"
proof -
  from assms obtain as where sh: "tq_shape q as" by (auto simp: tq_wf_def)
  from shape_head [OF sh] shape_tail [OF sh] show "(head q = None) = (tail q = None)" by simp
  from shape_head [OF sh] shape_empty [OF sh] show "(head q = None) = (tq_contents q = [])"
    by simp
qed

lemma push_wf:
  assumes "tq_wf q"
  shows "tq_wf (snd (push x q))"
    and "tq_contents (snd (push x q)) = tq_contents q @ [x]"
    and "fst (push x q) = resolve (tq_lock q)"
    and "resolve (tq_lock (snd (push x q))) = None"
    and "head (snd (push x q)) \<noteq> None"
proof -
  from assms obtain as where sh: "tq_shape q as" by (auto simp: tq_wf_def)
  from push_shape(1) [OF sh, of x] show "tq_wf (snd (push x q))" by (auto simp: tq_wf_def)
  from push_shape(2-5) [OF sh, of x]
  show "tq_contents (snd (push x q)) = tq_contents q @ [x]"
    and "fst (push x q) = resolve (tq_lock q)"
    and "resolve (tq_lock (snd (push x q))) = None"
    and "head (snd (push x q)) \<noteq> None"
    by simp_all
qed

lemma dequeue_wf:
  assumes "tq_wf q" "head q \<noteq> None"
  shows "\<exists>x q'. dequeue q = Inr (x, q') \<and> tq_wf q' \<and> tq_contents q = x # tq_contents q'
                \<and> tq_lock q' = tq_lock q"
proof -
  from assms obtain as where sh: "tq_shape q as" by (auto simp: tq_wf_def)
  with assms(2) shape_head [OF sh] obtain a bs where "as = a # bs" by (cases as) auto
  with sh dequeue_shape [of q a bs] show ?thesis by (auto simp: tq_wf_def)
qed

lemma take_item_inv:
  assumes "tq_wf (queue s)" "head (queue s) \<noteq> None" "resolve (tq_lock (queue s)) = None"
  shows "\<exists>s'. take_item s = Inr s' \<and> tq_inv s' \<and> consumer s' = AtLoopTop
              \<and> yielded s' @ tq_contents (queue s') = yielded s @ tq_contents (queue s)
              \<and> length (yielded s') = Suc (length (yielded s))"
proof -
  from dequeue_wf [OF assms(1,2)] obtain x q' where
    d: "dequeue (queue s) = Inr (x, q')" "tq_wf q'" "tq_contents (queue s) = x # tq_contents q'"
       "tq_lock q' = tq_lock (queue s)"
    by blast
  with assms(3) show ?thesis by (simp add: take_item_def tq_inv_def)
qed

lemma tq_step_push_inv:
  assumes "tq_inv s"
  shows "\<exists>s'. tq_step (Push x) s = Inr s' \<and> tq_inv s' \<and> yielded s' = yielded s
              \<and> tq_contents (queue s') = tq_contents (queue s) @ [x]
              \<and> (consumer s' = Parked) = False
              \<and> (consumer s \<noteq> Parked \<longrightarrow> consumer s' = consumer s)"
proof -
  from assms have wf: "tq_wf (queue s)" by (simp add: tq_inv_def)
  obtain w q' where p: "push x (queue s) = (w, q')" by (cases "push x (queue s)")
  from push_wf [OF wf, of x] p have
    q': "tq_wf q'" "tq_contents q' = tq_contents (queue s) @ [x]"
        "w = resolve (tq_lock (queue s))" "resolve (tq_lock q') = None" "head q' \<noteq> None"
    by simp_all
  show ?thesis
    using assms p q' by (cases "consumer s") (auto simp: tq_inv_def)
qed

lemma tq_step_next_inv:
  assumes "tq_inv s"
  shows "\<exists>s'. tq_step Next s = Inr s' \<and> tq_inv s'
              \<and> yielded s' @ tq_contents (queue s') = yielded s @ tq_contents (queue s)"
proof (cases "consumer s")
  case Parked
  with assms show ?thesis by simp
next
  case Resumed
  with assms take_item_inv [of s] show ?thesis by (auto simp: tq_inv_def)
next
  case AtLoopTop
  with assms have wf: "tq_wf (queue s)" and l: "resolve (tq_lock (queue s)) = None"
    by (simp_all add: tq_inv_def)
  show ?thesis
  proof (cases "head (queue s) = None")
    case True
    with AtLoopTop wf l show ?thesis
      by (simp add: pop_enter_def tq_inv_def acquire_def tq_wf_def tq_shape_def tq_contents_def)
  next
    case False
    then have pe: "pop_enter 0 (queue s) = (True, queue s)" by (simp add: pop_enter_def)
    have "s\<lparr>queue := queue s\<rparr> = s" by simp
    with AtLoopTop pe have "tq_step Next s = take_item s" by simp
    with take_item_inv [OF wf False l] show ?thesis by auto
  qed
qed

lemma tq_run_inv:
  "tq_inv s \<Longrightarrow>
   \<exists>s'. tq_run ops s = Inr s' \<and> tq_inv s'
        \<and> yielded s' @ tq_contents (queue s') = yielded s @ tq_contents (queue s) @ pushed ops"
proof (induction ops arbitrary: s)
  case Nil
  then show ?case by simp
next
  case (Cons x xs)
  show ?case
  proof (cases x)
    case (Push i)
    from tq_step_push_inv [OF Cons.prems, of i] obtain s1 where
      s1: "tq_step (Push i) s = Inr s1" "tq_inv s1" "yielded s1 = yielded s"
          "tq_contents (queue s1) = tq_contents (queue s) @ [i]"
      by blast
    from Cons.IH [OF s1(2)] s1 Push show ?thesis by auto
  next
    case Next
    from tq_step_next_inv [OF Cons.prems] obtain s1 where
      s1: "tq_step Next s = Inr s1" "tq_inv s1"
          "yielded s1 @ tq_contents (queue s1) = yielded s @ tq_contents (queue s)"
      by blast
    from Cons.IH [OF s1(2)] obtain s' where
      s': "tq_run xs s1 = Inr s'" "tq_inv s'"
          "yielded s' @ tq_contents (queue s') = yielded s1 @ tq_contents (queue s1) @ pushed xs"
      by blast
    from s'(3) s1(3) have
      "yielded s' @ tq_contents (queue s') = yielded s @ tq_contents (queue s) @ pushed xs"
      by (metis append.assoc)
    with s1 s' Next show ?thesis by simp
  qed
qed

lemma tq_new_inv: "tq_inv tq_system_new"
  by (simp add: tq_inv_def tq_system_new_def TaskQueue_new_def Lock_new_def tq_wf_def
                tq_shape_def exI [of _ "[]"])

lemma tq_new_contents: "tq_contents (queue tq_system_new) = []"
  by (simp add: tq_system_new_def TaskQueue_new_def tq_contents_def)


lemma tq_run_append:
  "tq_run (xs @ ys) s = (case tq_run xs s of Inl e \<Rightarrow> Inl e | Inr s' \<Rightarrow> tq_run ys s')"
  by (induction xs arbitrary: s) (auto split: sum.splits)

lemma tq_next_takes:
  assumes "tq_inv s" "consumer s \<noteq> Parked" "tq_contents (queue s) \<noteq> []"
  shows "\<exists>s'. tq_step Next s = Inr s' \<and> tq_inv s' \<and> consumer s' = AtLoopTop
              \<and> yielded s' @ tq_contents (queue s') = yielded s @ tq_contents (queue s)
              \<and> length (yielded s') = Suc (length (yielded s))"
proof -
  from assms have wf: "tq_wf (queue s)" and l: "resolve (tq_lock (queue s)) = None"
    by (auto simp: tq_inv_def split: consumer.splits)
  from wf_head_tail(2) [OF wf] assms(3) have h: "head (queue s) \<noteq> None" by simp
  then have pe: "pop_enter 0 (queue s) = (True, queue s)" by (simp add: pop_enter_def)
  have "s\<lparr>queue := queue s\<rparr> = s" by simp
  with assms(2) pe have "tq_step Next s = take_item s" by (cases "consumer s") simp_all
  with take_item_inv [OF wf h l] show ?thesis by auto
qed

lemma tq_new_yielded: "yielded tq_system_new = []"
  by (simp add: tq_system_new_def)

lemma tq_run_from_new:
  "\<exists>s. tq_run ops tq_system_new = Inr s \<and> tq_inv s
       \<and> yielded s @ tq_contents (queue s) = pushed ops"
  using tq_run_inv [OF tq_new_inv, of ops] by (simp add: tq_new_contents tq_new_yielded)

lemma tq_next_idle:
  assumes "tq_inv s" "tq_contents (queue s) = []"
  shows "\<exists>s'. tq_step Next s = Inr s' \<and> tq_inv s' \<and> yielded s' = yielded s
              \<and> tq_contents (queue s') = []"
proof -
  from assms(1) have wf: "tq_wf (queue s)" by (simp add: tq_inv_def)
  from wf_head_tail(2) [OF wf] assms(2) have h: "head (queue s) = None" by simp
  show ?thesis
  proof (cases "consumer s")
    case Parked
    with assms show ?thesis by simp
  next
    case Resumed
    with assms(1) h show ?thesis by (simp add: tq_inv_def)
  next
    case AtLoopTop
    with assms h wf show ?thesis
      by (simp add: pop_enter_def tq_inv_def acquire_def tq_wf_def tq_shape_def tq_contents_def)
  qed
qed

lemma tq_run_nexts_idle:
  "tq_inv s \<Longrightarrow> tq_contents (queue s) = [] \<Longrightarrow>
   \<exists>s'. tq_run (replicate n Next) s = Inr s' \<and> tq_inv s' \<and> yielded s' = yielded s
        \<and> tq_contents (queue s') = []"
proof (induction n arbitrary: s)
  case 0
  then show ?case by simp
next
  case (Suc n)
  from tq_next_idle [OF Suc.prems] obtain s1 where
    s1: "tq_step Next s = Inr s1" "tq_inv s1" "yielded s1 = yielded s"
        "tq_contents (queue s1) = []"
    by blast
  from Suc.IH [OF s1(2,4)] s1 show ?case by auto
qed

lemma tq_run_nexts_drain:
  "tq_inv s \<Longrightarrow> consumer s \<noteq> Parked \<Longrightarrow> n = length (tq_contents (queue s)) \<Longrightarrow>
   \<exists>s'. tq_run (replicate n Next) s = Inr s' \<and> tq_inv s'
        \<and> yielded s' = yielded s @ tq_contents (queue s) \<and> tq_contents (queue s') = []"
proof (induction n arbitrary: s)
  case 0
  then show ?case by simp
next
  case (Suc n)
  from Suc.prems(3) have ne: "tq_contents (queue s) \<noteq> []" by auto
  from tq_next_takes [OF Suc.prems(1,2) ne] obtain s1 where
    s1: "tq_step Next s = Inr s1" "tq_inv s1" "consumer s1 = AtLoopTop"
        "yielded s1 @ tq_contents (queue s1) = yielded s @ tq_contents (queue s)"
        "length (yielded s1) = Suc (length (yielded s))"
    by blast
  from s1(4) have "length (yielded s1) + length (tq_contents (queue s1)) =
                   length (yielded s) + length (tq_contents (queue s))"
    by (metis length_append)
  with s1(5) Suc.prems(3) have n: "n = length (tq_contents (queue s1))" by simp
  from s1(3) have np: "consumer s1 \<noteq> Parked" by simp
  from Suc.IH [OF s1(2) np n] obtain s' where
    s': "tq_run (replicate n Next) s1 = Inr s'" "tq_inv s'"
        "yielded s' = yielded s1 @ tq_contents (queue s1)" "tq_contents (queue s') = []"
    by blast
  with s1 show ?case by simp
qed

lemma parked_empty:
  assumes "tq_inv s" "consumer s = Parked"
  shows "tq_contents (queue s) = []"
proof -
  from assms have wf: "tq_wf (queue s)" and h: "head (queue s) = None"
    by (simp_all add: tq_inv_def)
  from wf_head_tail(2) [OF wf] h show ?thesis by simp
qed

lemma tq_run_deliver:
  assumes "tq_inv s"
  shows "\<exists>s'. tq_run (replicate (length (tq_contents (queue s)) + k) Next) s = Inr s'
              \<and> yielded s' = yielded s @ tq_contents (queue s) \<and> tq_contents (queue s') = []"
proof (cases "consumer s = Parked")
  case True
  from parked_empty [OF assms True] tq_run_nexts_idle [OF assms, of k] show ?thesis by auto
next
  case False
  from tq_run_nexts_drain [OF assms False refl] obtain s1 where
    s1: "tq_run (replicate (length (tq_contents (queue s))) Next) s = Inr s1" "tq_inv s1"
        "yielded s1 = yielded s @ tq_contents (queue s)" "tq_contents (queue s1) = []"
    by blast
  from tq_run_nexts_idle [OF s1(2,4), of k] obtain s' where
    s': "tq_run (replicate k Next) s1 = Inr s'" "yielded s' = yielded s1"
        "tq_contents (queue s') = []"
    by blast
  with s1 show ?thesis by (simp add: replicate_add tq_run_append)
qed

lemma tq_run_deliver_more:
  assumes "tq_inv s" "length (tq_contents (queue s)) \<le> n"
  shows "\<exists>s'. tq_run (replicate n Next) s = Inr s'
              \<and> yielded s' = yielded s @ tq_contents (queue s) \<and> tq_contents (queue s') = []"
proof -
  from assms(2) have "n = length (tq_contents (queue s)) + (n - length (tq_contents (queue s)))"
    by simp
  with tq_run_deliver [OF assms(1), of "n - length (tq_contents (queue s))"]
  show ?thesis by simp
qed

text \<open>
  Claim C3. After any interleaving of \<^verbatim>\<open>push\<close> calls and consumer steps on a new queue,
  no step has thrown, and the tasks yielded so far followed by the tasks still in the
  queue are exactly the tasks pushed, in the order pushed: what \<^verbatim>\<open>pop\<close> has yielded is
  a prefix of what was pushed, so the n-th task yielded is the n-th task pushed. And no
  task stays behind: after any such interleaving, also one in which the consumer found
  the queue empty and was suspended before a task was pushed, letting the consumer run
  as many times as tasks were pushed, or more often, yields every task pushed and leaves
  the queue empty.
\<close>

theorem pop_yields_in_push_order:
  "(\<exists>s. tq_run (ops :: 'a tq_op list) tq_system_new = Inr s
        \<and> yielded s @ tq_contents (queue s) = pushed ops
        \<and> yielded s = take (length (yielded s)) (pushed ops))
   \<and> (\<exists>s. tq_run (ops @ replicate (length (pushed ops) + k) Next) tq_system_new = Inr s
           \<and> yielded s = pushed ops \<and> tq_contents (queue s) = [])"
proof
  from tq_run_from_new [of ops] obtain s where
    s: "tq_run ops tq_system_new = Inr s"
       "yielded s @ tq_contents (queue s) = pushed ops"
    by blast
  from s(2) have "yielded s = take (length (yielded s)) (pushed ops)"
    by (metis append_eq_conv_conj)
  with s show "\<exists>s. tq_run ops tq_system_new = Inr s
        \<and> yielded s @ tq_contents (queue s) = pushed ops
        \<and> yielded s = take (length (yielded s)) (pushed ops)"
    by blast
next
  from tq_run_from_new [of ops] obtain s1 where
    s1: "tq_run ops tq_system_new = Inr s1" "tq_inv s1"
        "yielded s1 @ tq_contents (queue s1) = pushed ops"
    by blast
  from s1(3) have "length (yielded s1) + length (tq_contents (queue s1)) = length (pushed ops)"
    by (metis length_append)
  then have le: "length (tq_contents (queue s1)) \<le> length (pushed ops) + k" by simp
  from tq_run_deliver_more [OF s1(2) le] obtain s where
    s: "tq_run (replicate (length (pushed ops) + k) Next) s1 = Inr s"
       "yielded s = yielded s1 @ tq_contents (queue s1)" "tq_contents (queue s) = []"
    by blast
  with s1 show "\<exists>s. tq_run (ops @ replicate (length (pushed ops) + k) Next) tq_system_new = Inr s
           \<and> yielded s = pushed ops \<and> tq_contents (queue s) = []"
    by (simp add: tq_run_append)
qed

theorem pop_yields_in_push_order_witness:
  "\<exists>s. tq_run [Next, Push (1::nat), Push 2, Next, Next] tq_system_new = Inr s
       \<and> yielded s = [1, 2] \<and> tq_contents (queue s) = []"
proof -
  have e: "[Next, Push (1::nat), Push 2] @ replicate (length [1, 2 :: nat] + 0) Next =
           [Next, Push 1, Push 2, Next, Next]"
    by simp
  have p: "pushed [Next, Push (1::nat), Push 2] = [1, 2]" by simp
  from pop_yields_in_push_order [of "[Next, Push (1::nat), Push 2]" 0]
  have "\<exists>s. tq_run ([Next, Push (1::nat), Push 2] @
               replicate (length (pushed [Next, Push (1::nat), Push 2]) + 0) Next)
             tq_system_new = Inr s
           \<and> yielded s = pushed [Next, Push (1::nat), Push 2] \<and> tq_contents (queue s) = []"
    by (rule conjunct2)
  then show ?thesis unfolding p e .
qed

text \<open>
  Claim C9. After any interleaving of \<^verbatim>\<open>push\<close> calls and consumer steps on a new queue,
  \<^verbatim>\<open>head\<close> is \<^verbatim>\<open>undefined\<close> exactly when \<^verbatim>\<open>tail\<close> is, and exactly when the queue holds
  no task, the tasks held being those pushed and not yet yielded.
\<close>

theorem head_tail_empty_together:
  "\<exists>s. tq_run ops tq_system_new = Inr s
       \<and> (head (queue s) = None) = (tail (queue s) = None)
       \<and> (head (queue s) = None) = (tq_contents (queue s) = [])
       \<and> tq_contents (queue s) = drop (length (yielded s)) (pushed ops)"
proof -
  from tq_run_from_new [of ops] obtain s where
    s: "tq_run ops tq_system_new = Inr s" "tq_inv s"
       "yielded s @ tq_contents (queue s) = pushed ops"
    by blast
  from s(2) have wf: "tq_wf (queue s)" by (simp add: tq_inv_def)
  from s(3) have "tq_contents (queue s) = drop (length (yielded s)) (pushed ops)"
    by (metis append_eq_conv_conj)
  with s(1) wf_head_tail [OF wf] show ?thesis by (intro exI [of _ s] conjI)
qed

section \<open>The signal of push\<close>

lemma push_link_lock: "tq_lock (push_link x q) = tq_lock q"
  by (simp add: push_link_def Let_def split: option.splits)

lemma push_release:
  "fst (push x q) = resolve (tq_lock q)"
  "tq_lock (snd (push x q)) = (tq_lock q)\<lparr>resolve := None\<rparr>"
  by (simp_all add: push_def Let_def release_def push_link_lock split: option.splits prod.splits)

lemma push_link_frame:
  "a \<noteq> allocated q \<Longrightarrow> tail q \<noteq> Some a \<Longrightarrow> nodes (push_link x q) a = nodes q a"
  by (auto simp: push_link_def Let_def set_next_apply split: option.splits)

lemma push_nodes: "nodes (snd (push x q)) = nodes (push_link x q)"
  by (simp add: push_def Let_def split: prod.splits)

lemma push_frame:
  "{a. nodes (snd (push x q)) a \<noteq> nodes q a} \<subseteq> {allocated q} \<union> set_option (tail q)"
  using push_link_frame [of _ q x] by (auto simp: push_nodes)

lemma push_frame_card: "card {a. nodes (snd (push x q)) a \<noteq> nodes q a} \<le> 2"
proof -
  have f: "finite ({allocated q} \<union> set_option (tail q))" by (cases "tail q") simp_all
  have "card ({allocated q} \<union> set_option (tail q)) \<le> 2"
    by (cases "tail q") (simp_all add: card_insert_if)
  with card_mono [OF f push_frame [of x q]] show ?thesis by simp
qed

text \<open>
  Claim C7. \<^verbatim>\<open>push\<close> ends with \<^verbatim>\<open>release\<close> on the queue's lock, and \<^verbatim>\<open>release\<close> acts only
  on a registered waiter. In every state reached from the new queue by \<^verbatim>\<open>push\<close> calls and
  consumer steps a waiter is registered exactly while the consumer is parked, and then
  the queue is empty. So the signal of a \<^verbatim>\<open>push\<close> takes effect only when the push takes
  the queue from empty to non-empty, and then resumes the parked consumer; a \<^verbatim>\<open>push\<close>
  onto a queue that already holds a task resumes no one and leaves the lock as it was.
  Every \<^verbatim>\<open>push\<close> appends its task behind the tasks held, and in doing so writes at most
  two objects of the store, the new element and the old tail, however many tasks the
  queue holds.
\<close>

theorem push_signal_takes_effect_on_empty_only:
  "\<exists>s. tq_run ops tq_system_new = Inr s
       \<and> (head (queue s) \<noteq> None \<longrightarrow>
             fst (push y (queue s)) = None
             \<and> tq_lock (snd (push y (queue s))) = tq_lock (queue s))
       \<and> (fst (push y (queue s)) \<noteq> None \<longrightarrow> head (queue s) = None \<and> consumer s = Parked)
       \<and> (consumer s = Parked \<longrightarrow> head (queue s) = None \<and> fst (push y (queue s)) \<noteq> None)
       \<and> head (snd (push y (queue s))) \<noteq> None
       \<and> tq_contents (snd (push y (queue s))) = tq_contents (queue s) @ [y]
       \<and> {a. nodes (snd (push y (queue s))) a \<noteq> nodes (queue s) a}
             \<subseteq> {allocated (queue s)} \<union> set_option (tail (queue s))
       \<and> card {a. nodes (snd (push y (queue s))) a \<noteq> nodes (queue s) a} \<le> 2"
proof -
  from tq_run_from_new [of ops] obtain s where
    s: "tq_run ops tq_system_new = Inr s" "tq_inv s"
    by blast
  from s(2) have wf: "tq_wf (queue s)" by (simp add: tq_inv_def)
  have reg: "resolve (tq_lock (queue s)) \<noteq> None \<longleftrightarrow> consumer s = Parked"
    using s(2) by (cases "consumer s") (simp_all add: tq_inv_def)
  have par: "consumer s = Parked \<Longrightarrow> head (queue s) = None"
    using s(2) by (simp add: tq_inv_def)
  have 1: "head (queue s) \<noteq> None \<longrightarrow>
             fst (push y (queue s)) = None
             \<and> tq_lock (snd (push y (queue s))) = tq_lock (queue s)"
  proof
    assume "head (queue s) \<noteq> None"
    with par reg have "resolve (tq_lock (queue s)) = None" by auto
    then show "fst (push y (queue s)) = None
               \<and> tq_lock (snd (push y (queue s))) = tq_lock (queue s)"
      by (simp add: push_release)
  qed
  have 2: "fst (push y (queue s)) \<noteq> None \<longrightarrow> head (queue s) = None \<and> consumer s = Parked"
    using reg par by (simp add: push_release)
  have 3: "consumer s = Parked \<longrightarrow> head (queue s) = None \<and> fst (push y (queue s)) \<noteq> None"
    using reg par by (simp add: push_release)
  note 4 = push_wf(5) [OF wf, of y] and 5 = push_wf(2) [OF wf, of y]
    and 6 = push_frame [of y "queue s"] and 7 = push_frame_card [of y "queue s"]
  from s(1) 1 2 3 4 5 6 7 show ?thesis by (intro exI [of _ s] conjI)
qed

theorem push_signal_takes_effect_on_empty_only_witness:
  "(\<exists>s. tq_run [Push (1::nat)] tq_system_new = Inr s
        \<and> head (queue s) \<noteq> None
        \<and> fst (push 2 (queue s)) = None
        \<and> tq_lock (snd (push 2 (queue s))) = tq_lock (queue s))
   \<and> (\<exists>s. tq_run [Next] (tq_system_new :: nat tq_system) = Inr s
          \<and> consumer s = Parked
          \<and> head (queue s) = None
          \<and> fst (push 2 (queue s)) \<noteq> None)"
proof
  from push_signal_takes_effect_on_empty_only [of "[Push 1]" 2] obtain s where
    s: "tq_run [Push (1::nat)] tq_system_new = Inr s"
       "head (queue s) \<noteq> None \<longrightarrow>
          fst (push 2 (queue s)) = None \<and> tq_lock (snd (push 2 (queue s))) = tq_lock (queue s)"
    by blast
  from s(1) have "head (queue s) \<noteq> None"
    by (auto simp: tq_system_new_def TaskQueue_new_def push_def push_link_def Let_def
                   release_def Lock_new_def)
  with s show "\<exists>s. tq_run [Push (1::nat)] tq_system_new = Inr s
        \<and> head (queue s) \<noteq> None
        \<and> fst (push 2 (queue s)) = None
        \<and> tq_lock (snd (push 2 (queue s))) = tq_lock (queue s)"
    by blast
next
  from push_signal_takes_effect_on_empty_only [of "[Next]" 2] obtain s where
    s: "tq_run [Next] (tq_system_new :: nat tq_system) = Inr s"
       "consumer s = Parked \<longrightarrow> head (queue s) = None \<and> fst (push 2 (queue s)) \<noteq> None"
    by blast
  from s(1) have "consumer s = Parked"
    by (auto simp: tq_system_new_def TaskQueue_new_def pop_enter_def)
  with s show "\<exists>s. tq_run [Next] (tq_system_new :: nat tq_system) = Inr s
          \<and> consumer s = Parked
          \<and> head (queue s) = None
          \<and> fst (push 2 (queue s)) \<noteq> None"
    by blast
qed

section \<open>The pool: completion events\<close>







lemma new_queue_wf: "tq_wf TaskQueue_new"
  by (simp add: TaskQueue_new_def tq_wf_def tq_shape_def exI [of _ "[]"])







section \<open>The pool: submission\<close>

lemma new_pool_wf: "tq_wf (taskQueue (WorkerPool_new n))"
  by (simp add: WorkerPool_new_def new_queue_wf)

text \<open>
  \<^verbatim>\<open>addTask\<close> does not look into the table before it stores under the id it got. When
  \<^verbatim>\<open>randomUUID\<close> returns an id a second time, the second \<^verbatim>\<open>addTask\<close> replaces the resolve
  function stored by the first, while both tasks are in the queue under the one id.
\<close>

theorem repeated_id_overwrites:
  "notifications (snd (addTask ''u'' 0 (10 :: nat) (WorkerPool_new 2))) = [''u'' \<mapsto> 0]
   \<and> ''u'' \<in> dom (notifications (snd (addTask ''u'' 0 (10 :: nat) (WorkerPool_new 2))))
   \<and> notifications (snd (addTask ''u'' 1 11 (snd (addTask ''u'' 0 (10 :: nat) (WorkerPool_new 2)))))
       = [''u'' \<mapsto> 1]
   \<and> tq_contents (taskQueue
        (snd (addTask ''u'' 1 11 (snd (addTask ''u'' 0 (10 :: nat) (WorkerPool_new 2))))))
       = [\<lparr>task_id = ''u'', data = 10\<rparr>, \<lparr>task_id = ''u'', data = 11\<rparr>]"
proof -
  let ?p0 = "WorkerPool_new 2 :: nat WorkerPool"
  let ?p1 = "snd (addTask ''u'' 0 (10 :: nat) ?p0)"
  let ?p2 = "snd (addTask ''u'' 1 11 ?p1)"
  have n1: "notifications ?p1 = [''u'' \<mapsto> 0]"
    by (simp add: addTask_def Let_def WorkerPool_new_def split: prod.splits)
  have q1: "taskQueue ?p1 = snd (push \<lparr>task_id = ''u'', data = 10\<rparr> (taskQueue ?p0))"
    by (simp add: addTask_def Let_def split: prod.splits)
  have n2: "notifications ?p2 = [''u'' \<mapsto> 1]"
    by (simp add: addTask_def [of _ _ _ ?p1] Let_def n1 split: prod.splits)
  have q2: "taskQueue ?p2 = snd (push \<lparr>task_id = ''u'', data = 11\<rparr> (taskQueue ?p1))"
    by (simp add: addTask_def [of _ _ _ ?p1] Let_def split: prod.splits)
  have w0: "tq_wf (taskQueue ?p0)" by (rule new_pool_wf)
  have c0: "tq_contents (taskQueue ?p0) = []"
    by (simp add: WorkerPool_new_def TaskQueue_new_def tq_contents_def)
  from push_wf(1,2) [OF w0, of "\<lparr>task_id = ''u'', data = 10\<rparr>"] c0
  have w1: "tq_wf (taskQueue ?p1)"
    and c1: "tq_contents (taskQueue ?p1) = [\<lparr>task_id = ''u'', data = 10\<rparr>]"
    unfolding q1 by simp_all
  from push_wf(2) [OF w1, of "\<lparr>task_id = ''u'', data = 11\<rparr>"] c1
  have c2: "tq_contents (taskQueue ?p2) =
            [\<lparr>task_id = ''u'', data = 10\<rparr>, \<lparr>task_id = ''u'', data = 11\<rparr>]"
    unfolding q2 by simp
  from n1 n2 c2 show ?thesis by simp
qed

text \<open>
  Claim C5, as the code has it. \<^verbatim>\<open>addTask\<close> has no statement that throws or waits, and
  the model has no error result. For a pool whose queue has its shape, and whatever id
  \<^verbatim>\<open>randomUUID\<close> returned: the table holds the new resolve function under this id and is
  otherwise as before, so it keeps every earlier entry when the id is not in it yet;
  the queue holds the task \<^verbatim>\<open>{id, data}\<close> behind the tasks it held, one more than before;
  the tracker is unchanged, and the outcome is the same whatever the tracker is: no
  worker online, all workers busy.
\<close>

theorem addTask_registers_and_queues:
  assumes "tq_wf (taskQueue p)"
  shows "notifications (snd (addTask uuid r d p)) = (notifications p)(uuid \<mapsto> r)
         \<and> dom (notifications (snd (addTask uuid r d p))) = insert uuid (dom (notifications p))
         \<and> (\<forall>k. k \<noteq> uuid \<longrightarrow> notifications (snd (addTask uuid r d p)) k = notifications p k)
         \<and> (uuid \<notin> dom (notifications p) \<longrightarrow>
              notifications p \<subseteq>\<^sub>m notifications (snd (addTask uuid r d p)))
         \<and> tq_contents (taskQueue (snd (addTask uuid r d p))) =
             tq_contents (taskQueue p) @ [\<lparr>task_id = uuid, data = d\<rparr>]
         \<and> length (tq_contents (taskQueue (snd (addTask uuid r d p)))) =
             Suc (length (tq_contents (taskQueue p)))
         \<and> tq_wf (taskQueue (snd (addTask uuid r d p)))
         \<and> pool_availability (snd (addTask uuid r d p)) = pool_availability p
         \<and> addTask uuid r d (p\<lparr>pool_availability := a\<rparr>) =
             (fst (addTask uuid r d p), (snd (addTask uuid r d p))\<lparr>pool_availability := a\<rparr>)
         \<and> fst (addTask uuid r d p) = resolve (tq_lock (taskQueue p))"
proof -
  let ?t = "\<lparr>task_id = uuid, data = d\<rparr>"
  obtain woken q where ps: "push ?t (taskQueue p) = (woken, q)"
    by (cases "push ?t (taskQueue p)")
  then have a: "addTask uuid r d p =
      (woken, p\<lparr>notifications := (notifications p)(uuid \<mapsto> r), taskQueue := q\<rparr>)"
    by (simp add: addTask_def Let_def)
  from ps have b: "addTask uuid r d (p\<lparr>pool_availability := a\<rparr>) =
      (woken, p\<lparr>notifications := (notifications p)(uuid \<mapsto> r), taskQueue := q,
                pool_availability := a\<rparr>)"
    by (simp add: addTask_def Let_def)
  from push_wf(1-3) [OF assms(1), of ?t] ps have
    q: "tq_wf q" "tq_contents q = tq_contents (taskQueue p) @ [?t]"
       "woken = resolve (tq_lock (taskQueue p))"
    by simp_all
  have le: "uuid \<notin> dom (notifications p) \<longrightarrow>
            notifications p \<subseteq>\<^sub>m (notifications p)(uuid \<mapsto> r)"
    by (auto simp: map_le_def)
  from q le show ?thesis unfolding a b by simp
qed

theorem addTask_registers_and_queues_witness:
  "tq_wf (taskQueue (WorkerPool_new 2 :: nat WorkerPool))
   \<and> ''u1'' \<notin> dom (notifications (WorkerPool_new 2 :: nat WorkerPool))
   \<and> availabilityCount (pool_availability (WorkerPool_new 2 :: nat WorkerPool)) = 0
   \<and> notifications (snd (addTask ''u1'' 0 (10 :: nat) (WorkerPool_new 2))) = [''u1'' \<mapsto> 0]
   \<and> notifications (WorkerPool_new 2 :: nat WorkerPool)
        \<subseteq>\<^sub>m notifications (snd (addTask ''u1'' 0 (10 :: nat) (WorkerPool_new 2)))
   \<and> tq_contents (taskQueue (snd (addTask ''u1'' 0 (10 :: nat) (WorkerPool_new 2)))) =
       [\<lparr>task_id = ''u1'', data = 10\<rparr>]
   \<and> pool_availability (snd (addTask ''u1'' 0 (10 :: nat) (WorkerPool_new 2))) =
       AvailabilityQueue_new 2"
proof -
  let ?p = "WorkerPool_new 2 :: nat WorkerPool"
  have w: "tq_wf (taskQueue ?p)" by (rule new_pool_wf)
  have f: "''u1'' \<notin> dom (notifications ?p)" by (simp add: WorkerPool_new_def)
  have c: "availabilityCount (pool_availability ?p) = 0"
    by (simp add: WorkerPool_new_def AvailabilityQueue_new_def)
  have e: "tq_contents (taskQueue ?p) = []"
    by (simp add: WorkerPool_new_def TaskQueue_new_def tq_contents_def)
  have n: "notifications ?p = Map.empty" "pool_availability ?p = AvailabilityQueue_new 2"
    by (simp_all add: WorkerPool_new_def)
  note t = addTask_registers_and_queues [OF w, of "''u1''" 0 10 "AvailabilityQueue_new 2"]
  from t have 1: "notifications (snd (addTask ''u1'' 0 (10 :: nat) ?p)) =
                  (notifications ?p)(''u1'' \<mapsto> 0)" by blast
  from t f have 2: "notifications ?p \<subseteq>\<^sub>m notifications (snd (addTask ''u1'' 0 (10 :: nat) ?p))"
    by blast
  from t have 3: "tq_contents (taskQueue (snd (addTask ''u1'' 0 (10 :: nat) ?p))) =
                  tq_contents (taskQueue ?p) @ [\<lparr>task_id = ''u1'', data = 10\<rparr>]" by blast
  from t have 4: "pool_availability (snd (addTask ''u1'' 0 (10 :: nat) ?p)) =
                  pool_availability ?p" by blast
  from w f c 1 2 3 4 e n show ?thesis by simp
qed

end
